theory Spec2Isabelle
  imports Complex_Main "HOL-Library.Word" "HOL-Library.Multiset"
begin

unbundle bit_operations_syntax

section \<open>pynndescent/utils.py: random generator, sampler and neighbour heaps\<close>

subsection \<open>Binary64 values as the heap compares them\<close>

text \<open>
  The heap is one float64 ndarray. The code never does arithmetic on a weight: it copies
  weights and compares them with \<open><\<close>, \<open>>\<close> and \<open>>=\<close>. A weight is therefore a
  finite value, one of the two infinities, or a NaN, and the comparisons are the IEEE ones:
  every comparison with a NaN is false.
\<close>

datatype f8 = NaN | NInf | F8 real | PInf

fun f8_lt :: "f8 \<Rightarrow> f8 \<Rightarrow> bool" where
  "f8_lt NaN _ = False"
| "f8_lt _ NaN = False"
| "f8_lt _ NInf = False"
| "f8_lt NInf _ = True"
| "f8_lt PInf _ = False"
| "f8_lt (F8 x) (F8 y) = (x < y)"
| "f8_lt (F8 x) PInf = True"

fun f8_le :: "f8 \<Rightarrow> f8 \<Rightarrow> bool" where
  "f8_le NaN _ = False"
| "f8_le _ NaN = False"
| "f8_le NInf _ = True"
| "f8_le _ PInf = True"
| "f8_le PInf _ = False"
| "f8_le (F8 x) (F8 y) = (x \<le> y)"
| "f8_le (F8 x) NInf = False"

definition f8_gt :: "f8 \<Rightarrow> f8 \<Rightarrow> bool" where
  "f8_gt a b = f8_lt b a"

definition f8_ge :: "f8 \<Rightarrow> f8 \<Rightarrow> bool" where
  "f8_ge a b = f8_le b a"

subsection \<open>Random generator (\<open>tau_rand_int\<close>, \<open>tau_rand\<close>)\<close>

text \<open>
  The state is an int64 array of shape (3,), mutated in place; the model passes it and
  returns it. The functions are written for any record that has the three words, so that
  whatever else there is besides them is seen to play no part. Under the signature \<open>i4(i8[:])\<close> every operator works on int64:
  \<open><<\<close> drops the bits shifted past bit 63, \<open>>>\<close> is the arithmetic shift, and the
  returned int64 is truncated to its low 32 bits, read as a signed int32.
\<close>

type_synonym i8 = "64 word"
type_synonym i4 = "32 word"

record rng_state =
  s0 :: i8
  s1 :: i8
  s2 :: i8

definition tau_rand_int :: "'a rng_state_scheme \<Rightarrow> i4 \<times> 'a rng_state_scheme" where
  "tau_rand_int state =
    (let a = push_bit 12 (s0 state AND 4294967294) AND 0xffffffff
             XOR signed_drop_bit 19 ((push_bit 13 (s0 state) AND 0xffffffff) XOR s0 state);
         b = push_bit 4 (s1 state AND 4294967288) AND 0xffffffff
             XOR signed_drop_bit 25 ((push_bit 2 (s1 state) AND 0xffffffff) XOR s1 state);
         c = push_bit 17 (s2 state AND 4294967280) AND 0xffffffff
             XOR signed_drop_bit 11 ((push_bit 3 (s2 state) AND 0xffffffff) XOR s2 state)
     in (ucast (a XOR b XOR c), state\<lparr>s0 := a, s1 := b, s2 := c\<rparr>))"

text \<open>
  \<open>tau_rand\<close> returns \<open>float(integer) / 0x7fffffff\<close>. The quotient is kept as the exact
  real number; the rounding to the nearest float is monotone and keeps the sign, and no
  statement below depends on more than that.
\<close>

definition tau_rand :: "'a rng_state_scheme \<Rightarrow> real \<times> 'a rng_state_scheme" where
  "tau_rand state =
    (let (integer, state') = tau_rand_int state
     in (real_of_int (sint integer) / 0x7fffffff, state'))"




subsection \<open>Errors\<close>

text \<open>
  \<open>ValueError\<close>: numpy refuses a negative dimension. \<open>ZeroDivisionError\<close>: integer
  \<open>%\<close> by zero. \<open>OutOfBounds\<close>: an index outside the array; the compiled code does
  not check bounds, so nothing is known about what follows. A loop that does not end is
  the value \<open>None\<close> of an option, apart from every error.
\<close>

datatype error = ValueError | ZeroDivisionError | OutOfBounds

subsection \<open>Neighbour heap (\<open>make_heap\<close>, \<open>heap_push\<close>)\<close>

text \<open>
  The heap is one ndarray of shape \<open>(3, n_points, size)\<close>: plane 0 holds the indices,
  plane 1 the weights, plane 2 the flags. The three planes have the same shape by
  construction, so a row is a list of slots, slot \<open>k\<close> of row \<open>r\<close> holding
  \<open>heap[0, r, k]\<close>, \<open>heap[1, r, k]\<close> and \<open>heap[2, r, k]\<close>, and \<open>length\<close> of a row
  is \<open>heap.shape[2]\<close>. Indices and flags are integers stored in float64 cells; they
  are kept as integers here (exact up to \<open>2 ^ 53\<close>).
\<close>

record slot =
  index :: int
  weight :: f8
  is_new :: int

type_synonym heap = "slot list list"

text \<open>An index on one axis of length \<open>n\<close>: a negative index counts from the end.\<close>

definition wrap_index :: "nat \<Rightarrow> int \<Rightarrow> nat option" where
  "wrap_index n i =
    (if 0 \<le> i \<and> i < int n then Some (nat i)
     else if i < 0 \<and> 0 \<le> i + int n then Some (nat (i + int n))
     else None)"

definition make_heap :: "int \<Rightarrow> int \<Rightarrow> error + heap" where
  "make_heap n_points sz =
    (if n_points < 0 \<or> sz < 0 then Inl ValueError
     else Inr (replicate (nat n_points)
                 (replicate (nat sz) \<lparr>index = - 1, weight = PInf, is_new = 0\<rparr>)))"

text \<open>The scan \<open>for i in range(indices.shape[0]): if index == indices[i]: return 0\<close>.\<close>

fun index_scan :: "int \<Rightarrow> slot list \<Rightarrow> bool" where
  "index_scan ix [] = False"
| "index_scan ix (s # ss) = (if ix = index s then True else index_scan ix ss)"

text \<open>
  The \<open>while True\<close> loop of \<open>heap_push\<close>: it moves the chosen child up into slot
  \<open>i\<close> and goes on from the child; it returns the row and the slot where the loop
  stopped.
\<close>

function sift_down :: "f8 \<Rightarrow> slot list \<Rightarrow> nat \<Rightarrow> slot list \<times> nat" where
  "sift_down wt slots i =
    (let ic1 = 2 * i + 1; ic2 = ic1 + 1 in
     if ic1 \<ge> length slots then (slots, i)
     else if ic2 \<ge> length slots then
       (if f8_gt (weight (slots ! ic1)) wt
        then sift_down wt (slots[i := slots ! ic1]) ic1
        else (slots, i))
     else if f8_ge (weight (slots ! ic1)) (weight (slots ! ic2)) then
       (if f8_lt wt (weight (slots ! ic1))
        then sift_down wt (slots[i := slots ! ic1]) ic1
        else (slots, i))
     else
       (if f8_lt wt (weight (slots ! ic2))
        then sift_down wt (slots[i := slots ! ic2]) ic2
        else (slots, i)))"
  by pat_completeness auto
termination
  by (relation "measure (\<lambda>(wt, slots, i). length slots - i)") auto

text \<open>Lines 176 to 212: the root is overwritten, the loop runs, slot \<open>i\<close> is written.\<close>

definition push_row :: "slot list \<Rightarrow> f8 \<Rightarrow> int \<Rightarrow> int \<Rightarrow> slot list" where
  "push_row slots wt ix flag =
    (let new = \<lparr>index = ix, weight = wt, is_new = flag\<rparr>;
         (slots', i) = sift_down wt (slots[0 := new]) 0
     in slots'[i := new])"

definition heap_push :: "heap \<Rightarrow> int \<Rightarrow> f8 \<Rightarrow> int \<Rightarrow> int \<Rightarrow> error + (int \<times> heap)" where
  "heap_push heap row wt ix flag =
    (case wrap_index (length heap) row of
       None \<Rightarrow> Inl OutOfBounds
     | Some r \<Rightarrow>
         if heap ! r = [] then Inl OutOfBounds
         else if f8_gt wt (weight (heap ! r ! 0)) then Inr (0, heap)
         else if index_scan ix (heap ! r) then Inr (0, heap)
         else Inr (1, heap[r := push_row (heap ! r) wt ix flag]))"

subsection \<open>Extraction (\<open>deheap_sort\<close>, \<open>smallest_flagged\<close>)\<close>

text \<open>\<open>deheap_sort\<close> swaps indices and weights of two slots; the flags stay in place.\<close>

definition swap_iw :: "slot list \<Rightarrow> nat \<Rightarrow> nat \<Rightarrow> slot list" where
  "swap_iw slots a b =
    (let sa = slots ! a; sb = slots ! b in
     (slots[a := sa\<lparr>index := index sb, weight := weight sb\<rparr>])
           [b := sb\<lparr>index := index sa, weight := weight sa\<rparr>])"

function sift_root :: "slot list \<Rightarrow> int \<Rightarrow> nat \<Rightarrow> slot list" where
  "sift_root slots heap_end rt =
    (if int (rt * 2 + 1) < heap_end then
       (let left_child = rt * 2 + 1;
            right_child = left_child + 1;
            swp = rt;
            swp = (if f8_lt (weight (slots ! swp)) (weight (slots ! left_child))
                    then left_child else swp);
            swp = (if int right_child < heap_end
                       \<and> f8_lt (weight (slots ! swp)) (weight (slots ! right_child))
                    then right_child else swp)
        in if swp = rt then slots
           else sift_root (swap_iw slots rt swp) heap_end swp)
     else slots)"
  by pat_completeness auto
termination
  by (relation "measure (\<lambda>(slots, heap_end, rt). nat heap_end - rt)")
     (auto simp: Let_def split: if_splits)

function deheap_row :: "slot list \<Rightarrow> int \<Rightarrow> slot list" where
  "deheap_row slots heap_end =
    (if heap_end \<ge> 0 then
       deheap_row (sift_root (swap_iw slots 0 (nat heap_end)) (heap_end - 1) 0) (heap_end - 1)
     else slots)"
  by pat_completeness auto
termination
  by (relation "measure (\<lambda>(slots, heap_end). nat (heap_end + 1))") auto

definition deheap_sort :: "heap \<Rightarrow> int list list \<times> f8 list list" where
  "deheap_sort heap =
    (let rows = map (\<lambda>slots. deheap_row slots (int (length slots) - 1)) heap
     in (map (map index) rows, map (map weight) rows))"

text \<open>
  The scan of \<open>smallest_flagged\<close>, slot by slot from position \<open>i\<close>, with the running
  \<open>min_dist\<close> and \<open>result_index\<close>. A flag is true when it is not zero.
\<close>

fun flagged_scan :: "slot list \<Rightarrow> nat \<Rightarrow> f8 \<Rightarrow> int \<Rightarrow> int" where
  "flagged_scan [] i min_dist result_index = result_index"
| "flagged_scan (s # ss) i min_dist result_index =
     (if is_new s \<noteq> 0 \<and> f8_lt (weight s) min_dist
      then flagged_scan ss (i + 1) (weight s) (int i)
      else flagged_scan ss (i + 1) min_dist result_index)"

definition smallest_flagged :: "heap \<Rightarrow> int \<Rightarrow> error + (int \<times> heap)" where
  "smallest_flagged heap row =
    (case wrap_index (length heap) row of
       None \<Rightarrow> Inl OutOfBounds
     | Some r \<Rightarrow>
         (let result_index = flagged_scan (heap ! r) 0 PInf (- 1) in
          if result_index \<ge> 0 then
            Inr (index (heap ! r ! nat result_index),
                 heap[r := (heap ! r)[nat result_index :=
                               (heap ! r ! nat result_index)\<lparr>is_new := 0\<rparr>]])
          else Inr (- 1, heap)))"

subsection \<open>Sampler (\<open>rejection_sample\<close>)\<close>

text \<open>
  The \<open>while reject_sample\<close> loop for one position: \<open>result\<close> holds the values accepted
  so far, and the inner \<open>for k in range(i)\<close> with its \<open>else\<close> accepts \<open>j\<close> exactly when
  \<open>j\<close> is none of them. The loop has no bound, so it is a partial function.
\<close>

partial_function (option) sample_loop ::
  "int \<Rightarrow> int list \<Rightarrow> rng_state \<Rightarrow> (error + int \<times> rng_state) option" where
  "sample_loop pool_size result rng_state =
    (let (r, state') = tau_rand_int rng_state in
     if pool_size = 0 then Some (Inl ZeroDivisionError)
     else (let j = sint r mod pool_size in
           if j \<in> set result then sample_loop pool_size result state'
           else Some (Inr (j, state'))))"

declare sample_loop.simps [code]

text \<open>The \<open>for i in range(n_samples)\<close> loop, by the number of positions still to fill.\<close>

fun sample_for ::
  "nat \<Rightarrow> int \<Rightarrow> int list \<Rightarrow> rng_state \<Rightarrow> (error + int list \<times> rng_state) option" where
  "sample_for 0 pool_size result rng_state = Some (Inr (result, rng_state))"
| "sample_for (Suc k) pool_size result rng_state =
     (case sample_loop pool_size result rng_state of
        None \<Rightarrow> None
      | Some (Inl e) \<Rightarrow> Some (Inl e)
      | Some (Inr (j, state')) \<Rightarrow> sample_for k pool_size (result @ [j]) state')"

definition rejection_sample ::
  "int \<Rightarrow> int \<Rightarrow> rng_state \<Rightarrow> (error + int list \<times> rng_state) option" where
  "rejection_sample n_samples pool_size rng_state =
    (if n_samples < 0 then Some (Inl ValueError)
     else sample_for (nat n_samples) pool_size [] rng_state)"

subsection \<open>Candidate graph builder (\<open>build_candidates\<close>)\<close>

text \<open>A \<open>for\<close> loop over a range whose body may fail; the first error ends it.\<close>

fun for_each :: "('a \<Rightarrow> 's \<Rightarrow> error + 's) \<Rightarrow> 'a list \<Rightarrow> 's \<Rightarrow> error + 's" where
  "for_each body [] s = Inr s"
| "for_each body (x # xs) s =
     (case body x s of Inl e \<Rightarrow> Inl e | Inr s' \<Rightarrow> for_each body xs s')"

text \<open>
  The body of the inner loop, lines 323 to 330, on the candidate heap, the graph and the
  generator state. The loops are plain \<open>range\<close> loops, so they run in order.
\<close>

definition candidate_step ::
  "nat \<Rightarrow> nat \<Rightarrow> heap \<times> heap \<times> rng_state \<Rightarrow> error + heap \<times> heap \<times> rng_state" where
  "candidate_step i j s =
    (let (candidate_neighbors, current_graph, rng_state) = s in
     if i \<ge> length current_graph \<or> j \<ge> length (current_graph ! i) then Inl OutOfBounds
     else if index (current_graph ! i ! j) < 0 then Inr s
     else
       (let idx = index (current_graph ! i ! j);
            isn = is_new (current_graph ! i ! j);
            (d, state') = tau_rand rng_state
        in case heap_push candidate_neighbors (int i) (F8 d) idx isn of
             Inl e \<Rightarrow> Inl e
           | Inr (_, pushed1) \<Rightarrow>
               (case heap_push pushed1 idx (F8 d) (int i) isn of
                  Inl e \<Rightarrow> Inl e
                | Inr (_, pushed2) \<Rightarrow>
                    Inr (pushed2,
                         current_graph[i := (current_graph ! i)
                            [j := (current_graph ! i ! j)\<lparr>is_new := 0\<rparr>]],
                         state'))))"

definition build_candidates ::
  "heap \<Rightarrow> int \<Rightarrow> int \<Rightarrow> int \<Rightarrow> rng_state \<Rightarrow> error + heap \<times> heap \<times> rng_state" where
  "build_candidates current_graph n_vertices n_neighbors max_candidates rng_state =
    (case make_heap n_vertices max_candidates of
       Inl e \<Rightarrow> Inl e
     | Inr candidate_neighbors \<Rightarrow>
         for_each (\<lambda>i. for_each (\<lambda>j. candidate_step i j) [0..<nat n_neighbors])
           [0..<nat n_vertices] (candidate_neighbors, current_graph, rng_state))"

subsection \<open>Heap invariants\<close>




fun heap_pushes :: "heap \<Rightarrow> (int \<times> f8 \<times> int \<times> int) list \<Rightarrow> error + heap" where
  "heap_pushes h [] = Inr h"
| "heap_pushes h ((row, wt, ix, flag) # ps) =
     (case heap_push h row wt ix flag of
        Inl e \<Rightarrow> Inl e
      | Inr (_, h') \<Rightarrow> heap_pushes h' ps)"




subsection \<open>What \<open>smallest_flagged\<close> selects\<close>

text \<open>
  The scan starts from \<open>min_dist = inf\<close> and compares with \<open><\<close>, so it can only
  select a flagged slot whose weight is below \<open>+inf\<close>. Position \<open>p\<close> is selected when
  it is such a slot, no flagged slot has a smaller weight, and every such slot before it
  has a greater weight. \<open>cand m\<close> is a slot the scan takes when \<open>min_dist\<close> is \<open>m\<close>.
\<close>

definition eligible :: "slot \<Rightarrow> bool" where
  "eligible s \<longleftrightarrow> is_new s \<noteq> 0 \<and> f8_lt (weight s) PInf"

definition selected :: "slot list \<Rightarrow> nat \<Rightarrow> bool" where
  "selected slots p \<longleftrightarrow>
     p < length slots \<and> eligible (slots ! p)
     \<and> (\<forall>k\<in>{..<length slots}. is_new (slots ! k) \<noteq> 0
            \<longrightarrow> \<not> f8_lt (weight (slots ! k)) (weight (slots ! p)))
     \<and> (\<forall>k\<in>{..<p}. eligible (slots ! k) \<longrightarrow> f8_lt (weight (slots ! p)) (weight (slots ! k)))"

definition clear_flag :: "slot list \<Rightarrow> nat \<Rightarrow> slot list" where
  "clear_flag slots p = slots[p := (slots ! p)\<lparr>is_new := 0\<rparr>]"

definition cand :: "f8 \<Rightarrow> slot \<Rightarrow> bool" where
  "cand m s \<longleftrightarrow> is_new s \<noteq> 0 \<and> f8_lt (weight s) m"

subsection \<open>The pushes \<open>build_candidates\<close> is to attempt\<close>




text \<open>The (index, weight) pairs of a row, in slot order.\<close>

definition pairs :: "slot list \<Rightarrow> (int \<times> f8) list" where
  "pairs slots = map (\<lambda>s. (index s, weight s)) slots"

text \<open>
  A graph on which \<open>build_candidates\<close> stays inside the arrays: it has the rows and
  slots the loops visit, and every index below \<open>n_vertices\<close>.
\<close>

definition graph_ok :: "heap \<Rightarrow> nat \<Rightarrow> nat \<Rightarrow> bool" where
  "graph_ok g n_vertices n_neighbors \<longleftrightarrow>
     n_vertices \<le> length g
     \<and> (\<forall>i\<in>{..<n_vertices}. n_neighbors \<le> length (g ! i)
           \<and> (\<forall>j\<in>{..<n_neighbors}. index (g ! i ! j) < int n_vertices))"

section \<open>The random generator\<close>





section \<open>Rejected pushes\<close>

lemma index_scan_set: "index_scan ix slots \<longleftrightarrow> ix \<in> index ` set slots"
  by (induction slots) auto

lemma index_scan_nth: "index_scan ix slots \<longleftrightarrow> (\<exists>k<length slots. index (slots ! k) = ix)"
  unfolding index_scan_set by (force simp: in_set_conv_nth image_iff)




text \<open>
  C10. On a row with at least one slot whose index is \<open>-1\<close>, \<open>heap_push\<close> with
  index \<open>-1\<close> returns 0 and leaves the heap unchanged, for every weight and flag.
\<close>

theorem heap_push_sentinel_rejected:
  assumes "wrap_index (length heap) row = Some r"
    and "\<exists>k<length (heap ! r). index (heap ! r ! k) = - 1"
  shows "heap_push heap row wt (- 1) flag = Inr (0, heap)"
proof -
  from assms(2) have "heap ! r \<noteq> []" by auto
  moreover from assms(2) have "index_scan (- 1) (heap ! r)" by (simp add: index_scan_nth)
  ultimately show ?thesis using assms(1) by (simp add: heap_push_def)
qed

theorem heap_push_sentinel_rejected_witness:
  "heap_push [[\<lparr>index = 4, weight = F8 5, is_new = 0\<rparr>, \<lparr>index = - 1, weight = PInf, is_new = 0\<rparr>]] 0 (F8 1) (- 1) 1
     = Inr (0, [[\<lparr>index = 4, weight = F8 5, is_new = 0\<rparr>, \<lparr>index = - 1, weight = PInf, is_new = 0\<rparr>]])"
proof -
  let ?h = "[[\<lparr>index = 4, weight = F8 5, is_new = 0\<rparr>, \<lparr>index = - 1, weight = PInf, is_new = 0\<rparr>]]"
  have w: "wrap_index (length ?h) 0 = Some 0" by (simp add: wrap_index_def)
  have ex: "\<exists>k<length (?h ! 0). index (?h ! 0 ! k) = - 1" by (rule exI [of _ 1]) simp
  show ?thesis using heap_push_sentinel_rejected [OF w ex] by simp
qed

section \<open>The heap invariant\<close>














declare sift_down.simps [simp del]




lemma hole_move_mset:
  assumes "i < length xs" and "s < length xs" and "i \<noteq> s"
  shows "mset (xs[i := xs ! s, s := new]) = mset (xs[i := new])"
proof -
  let ?ls = "xs[i := new]"
  have "mset (?ls[s := ?ls ! i, i := ?ls ! s]) = mset ?ls"
    by (rule mset_swap) (use assms in simp_all)
  moreover have "?ls[s := ?ls ! i, i := ?ls ! s] = xs[i := xs ! s, s := new]"
    using assms by (simp add: list_update_swap [of s i])
  ultimately show ?thesis by simp
qed

lemma sift_down_mset:
  assumes "i < length slots" and "sift_down wt slots i = (slots', j)"
  shows "length slots' = length slots \<and> j < length slots
         \<and> mset (slots'[j := new]) = mset (slots[i := new])"
  using assms
proof (induction wt slots i arbitrary: slots' j rule: sift_down.induct)
  case (1 wt slots i)
  let ?c1 = "2 * i + 1" and ?c2 = "2 * i + 1 + 1"
  note il = "1.prems"(1)
  note sd = "1.prems"(2) [unfolded sift_down.simps [of wt slots i] Let_def]
  have move: "length slots' = length slots \<and> j < length slots
         \<and> mset (slots'[j := new]) = mset (slots[i := new])"
    if s: "s < length slots" "i < s"
      and ih: "s < length (slots[i := slots ! s])
               \<Longrightarrow> sift_down wt (slots[i := slots ! s]) s = (slots', j)
               \<Longrightarrow> length slots' = length (slots[i := slots ! s]) \<and> j < length (slots[i := slots ! s])
                   \<and> mset (slots'[j := new]) = mset (slots[i := slots ! s, s := new])"
      and rec: "sift_down wt (slots[i := slots ! s]) s = (slots', j)"
    for s
    using ih rec s il hole_move_mset [of i slots s new] by simp
  show ?case
  proof (cases "length slots \<le> ?c1")
    case True
    then show ?thesis using sd il by simp
  next
    case c1: False
    then have s1: "?c1 < length slots" "i < ?c1" by simp_all
    show ?thesis
    proof (cases "length slots \<le> ?c2")
      case True
      show ?thesis
      proof (cases "f8_gt (weight (slots ! ?c1)) wt")
        case gt: True
        have rec: "sift_down wt (slots[i := slots ! ?c1]) ?c1 = (slots', j)"
          using sd c1 True gt by simp
        show ?thesis
          by (rule move [OF s1 "1.IH"(1) [OF refl refl c1 True gt] rec])
      next
        case False
        then show ?thesis using sd c1 True il by simp
      qed
    next
      case c2: False
      then have s2: "?c2 < length slots" "i < ?c2" by simp_all
      show ?thesis
      proof (cases "f8_ge (weight (slots ! ?c1)) (weight (slots ! ?c2))")
        case ge: True
        show ?thesis
        proof (cases "f8_lt wt (weight (slots ! ?c1))")
          case lt: True
          have rec: "sift_down wt (slots[i := slots ! ?c1]) ?c1 = (slots', j)"
            using sd c1 c2 ge lt by simp
          show ?thesis
            by (rule move [OF s1 "1.IH"(2) [OF refl refl c1 c2 ge lt] rec])
        next
          case False
          then show ?thesis using sd c1 c2 ge il by simp
        qed
      next
        case nge: False
        show ?thesis
        proof (cases "f8_lt wt (weight (slots ! ?c2))")
          case lt: True
          have rec: "sift_down wt (slots[i := slots ! ?c2]) ?c2 = (slots', j)"
            using sd c1 c2 nge lt by simp
          show ?thesis
            by (rule move [OF s2 "1.IH"(3) [OF refl refl c1 c2 nge lt] rec])
        next
          case False
          then show ?thesis using sd c1 c2 nge il by simp
        qed
      qed
    qed
  qed
qed












section \<open>The smallest flagged slot\<close>

lemma f8_lt_trans: "f8_lt a b \<Longrightarrow> f8_lt b c \<Longrightarrow> f8_lt a c"
  by (cases a; cases b; cases c) auto

lemma f8_lt_irrefl: "\<not> f8_lt a a"
  by (cases a) auto

lemma f8_lt_asym: "f8_lt a b \<Longrightarrow> \<not> f8_lt b a"
  by (cases a; cases b) auto

lemma f8_lt_not_nan: "f8_lt a b \<Longrightarrow> a \<noteq> NaN \<and> b \<noteq> NaN"
  by (cases a; cases b) auto

lemma f8_lt_cases: "a \<noteq> NaN \<Longrightarrow> b \<noteq> NaN \<Longrightarrow> f8_lt a b \<or> a = b \<or> f8_lt b a"
  by (cases a; cases b) auto

lemma flagged_scan_spec:
  "(\<not> (\<exists>t\<in>set ss. cand m t) \<and> flagged_scan ss i m ri = ri)
   \<or> (\<exists>p<length ss. flagged_scan ss i m ri = int (i + p) \<and> cand m (ss ! p)
        \<and> (\<forall>t\<in>set ss. is_new t \<noteq> 0 \<longrightarrow> f8_lt (weight t) m \<longrightarrow> \<not> f8_lt (weight t) (weight (ss ! p)))
        \<and> (\<forall>t\<in>set (take p ss). cand m t \<longrightarrow> f8_lt (weight (ss ! p)) (weight t)))"
proof (induction ss arbitrary: i m ri)
  case Nil
  then show ?case by simp
next
  case (Cons s ss)
  show ?case
  proof (cases "cand m s")
    case True
    then have step: "flagged_scan (s # ss) i m ri = flagged_scan ss (i + 1) (weight s) (int i)"
      by (simp add: cand_def)
    from Cons.IH [of "weight s" "i + 1" "int i"]
    show ?thesis
    proof (elim disjE conjE exE)
      assume none: "\<not> (\<exists>t\<in>set ss. cand (weight s) t)"
        and r: "flagged_scan ss (i + 1) (weight s) (int i) = int i"
      have "\<forall>t\<in>set (s # ss). is_new t \<noteq> 0 \<longrightarrow> f8_lt (weight t) m
              \<longrightarrow> \<not> f8_lt (weight t) (weight ((s # ss) ! 0))"
        using none by (auto simp: cand_def f8_lt_irrefl)
      then have "0 < length (s # ss) \<and> flagged_scan (s # ss) i m ri = int (i + 0)
          \<and> cand m ((s # ss) ! 0)
          \<and> (\<forall>t\<in>set (s # ss). is_new t \<noteq> 0 \<longrightarrow> f8_lt (weight t) m
                \<longrightarrow> \<not> f8_lt (weight t) (weight ((s # ss) ! 0)))
          \<and> (\<forall>t\<in>set (take 0 (s # ss)). cand m t \<longrightarrow> f8_lt (weight ((s # ss) ! 0)) (weight t))"
        using True step r by simp
      then show ?thesis by blast
    next
      fix p assume p: "p < length ss"
        and r: "flagged_scan ss (i + 1) (weight s) (int i) = int (i + 1 + p)"
        and c: "cand (weight s) (ss ! p)"
        and mn: "\<forall>t\<in>set ss. is_new t \<noteq> 0 \<longrightarrow> f8_lt (weight t) (weight s)
                  \<longrightarrow> \<not> f8_lt (weight t) (weight (ss ! p))"
        and fst: "\<forall>t\<in>set (take p ss). cand (weight s) t \<longrightarrow> f8_lt (weight (ss ! p)) (weight t)"
      have ps: "f8_lt (weight (ss ! p)) (weight s)" using c by (simp add: cand_def)
      have sm: "f8_lt (weight s) m" using True by (simp add: cand_def)
      have c': "cand m (ss ! p)" using c f8_lt_trans [OF ps sm] by (simp add: cand_def)
      have mn': "\<not> f8_lt (weight t) (weight (ss ! p))"
        if "t \<in> set (s # ss)" "is_new t \<noteq> 0" for t
      proof (cases "t = s")
        case True
        then show ?thesis using f8_lt_asym [OF ps] by simp
      next
        case False
        then have "t \<in> set ss" using that by simp
        then show ?thesis using mn that(2) f8_lt_trans [OF _ ps] by blast
      qed
      have fst': "f8_lt (weight (ss ! p)) (weight t)"
        if "t \<in> set (s # take p ss)" "cand m t" for t
      proof (cases "t = s")
        case True
        then show ?thesis using ps by simp
      next
        case False
        then have t: "t \<in> set (take p ss)" using that by simp
        show ?thesis
        proof (cases "f8_lt (weight t) (weight s)")
          case True
          then show ?thesis using fst t that(2) by (simp add: cand_def)
        next
          case nlt: False
          have "weight t \<noteq> NaN" "weight s \<noteq> NaN"
            using that(2) sm f8_lt_not_nan by (auto simp: cand_def)
          then have "weight t = weight s \<or> f8_lt (weight s) (weight t)"
            using f8_lt_cases nlt by blast
          then show ?thesis using ps f8_lt_trans [OF ps] by auto
        qed
      qed
      have "Suc p < length (s # ss) \<and> flagged_scan (s # ss) i m ri = int (i + Suc p)
          \<and> cand m ((s # ss) ! Suc p)
          \<and> (\<forall>t\<in>set (s # ss). is_new t \<noteq> 0 \<longrightarrow> f8_lt (weight t) m
                \<longrightarrow> \<not> f8_lt (weight t) (weight ((s # ss) ! Suc p)))
          \<and> (\<forall>t\<in>set (take (Suc p) (s # ss)). cand m t
                \<longrightarrow> f8_lt (weight ((s # ss) ! Suc p)) (weight t))"
        using p step r c' mn' fst' by simp
      then show ?thesis by blast
    qed
  next
    case False
    then have step: "flagged_scan (s # ss) i m ri = flagged_scan ss (i + 1) m ri"
      by (auto simp: cand_def)
    from Cons.IH [of m "i + 1" ri]
    show ?thesis
    proof (elim disjE conjE exE)
      assume "\<not> (\<exists>t\<in>set ss. cand m t)" and "flagged_scan ss (i + 1) m ri = ri"
      then show ?thesis using False step by simp
    next
      fix p assume p: "p < length ss"
        and r: "flagged_scan ss (i + 1) m ri = int (i + 1 + p)"
        and c: "cand m (ss ! p)"
        and mn: "\<forall>t\<in>set ss. is_new t \<noteq> 0 \<longrightarrow> f8_lt (weight t) m
                  \<longrightarrow> \<not> f8_lt (weight t) (weight (ss ! p))"
        and fst: "\<forall>t\<in>set (take p ss). cand m t \<longrightarrow> f8_lt (weight (ss ! p)) (weight t)"
      have "Suc p < length (s # ss) \<and> flagged_scan (s # ss) i m ri = int (i + Suc p)
          \<and> cand m ((s # ss) ! Suc p)
          \<and> (\<forall>t\<in>set (s # ss). is_new t \<noteq> 0 \<longrightarrow> f8_lt (weight t) m
                \<longrightarrow> \<not> f8_lt (weight t) (weight ((s # ss) ! Suc p)))
          \<and> (\<forall>t\<in>set (take (Suc p) (s # ss)). cand m t
                \<longrightarrow> f8_lt (weight ((s # ss) ! Suc p)) (weight t))"
        using p step r c mn fst False by (auto simp: cand_def)
      then show ?thesis by blast
    qed
  qed
qed

lemma flagged_scan_none:
  assumes "\<not> (\<exists>k<length slots. eligible (slots ! k))"
  shows "flagged_scan slots 0 PInf (- 1) = - 1"
proof -
  have "\<not> (\<exists>t\<in>set slots. cand PInf t)"
    using assms by (auto simp: in_set_conv_nth cand_def eligible_def)
  with flagged_scan_spec [of slots PInf 0 "- 1"] show ?thesis
  proof (elim disjE exE conjE)
    fix p assume "p < length slots" and "cand PInf (slots ! p)"
      and "\<not> (\<exists>t\<in>set slots. cand PInf t)"
    then show ?thesis using nth_mem [of p slots] by blast
  qed simp
qed

lemma flagged_scan_selected:
  assumes "\<exists>k<length slots. eligible (slots ! k)"
  shows "\<exists>p. selected slots p \<and> flagged_scan slots 0 PInf (- 1) = int p"
proof -
  have "\<exists>t\<in>set slots. cand PInf t"
    using assms by (auto simp: cand_def eligible_def)
  with flagged_scan_spec [of slots PInf 0 "- 1"]
  have "\<exists>p<length slots. flagged_scan slots 0 PInf (- 1) = int (0 + p) \<and> cand PInf (slots ! p)
        \<and> (\<forall>t\<in>set slots. is_new t \<noteq> 0 \<longrightarrow> f8_lt (weight t) PInf
               \<longrightarrow> \<not> f8_lt (weight t) (weight (slots ! p)))
        \<and> (\<forall>t\<in>set (take p slots). cand PInf t \<longrightarrow> f8_lt (weight (slots ! p)) (weight t))"
    by (elim disjE conjE) (simp, assumption)
  then obtain p where p: "p < length slots" "flagged_scan slots 0 PInf (- 1) = int p"
      "cand PInf (slots ! p)"
      and mn: "\<forall>t\<in>set slots. is_new t \<noteq> 0 \<longrightarrow> f8_lt (weight t) PInf
                  \<longrightarrow> \<not> f8_lt (weight t) (weight (slots ! p))"
      and fst: "\<forall>t\<in>set (take p slots). cand PInf t \<longrightarrow> f8_lt (weight (slots ! p)) (weight t)"
    by (elim exE conjE) simp
  have lp: "f8_lt (weight (slots ! p)) PInf" using p(3) by (simp add: cand_def)
  have "\<not> f8_lt (weight (slots ! k)) (weight (slots ! p))"
    if k: "k < length slots" "is_new (slots ! k) \<noteq> 0" for k
  proof
    assume lt: "f8_lt (weight (slots ! k)) (weight (slots ! p))"
    then have "f8_lt (weight (slots ! k)) PInf" using lp by (rule f8_lt_trans)
    then show False using mn k lt nth_mem [OF k(1)] by blast
  qed
  moreover have "f8_lt (weight (slots ! p)) (weight (slots ! k))"
    if k: "k < p" "eligible (slots ! k)" for k
  proof -
    have "k < length (take p slots)" "take p slots ! k = slots ! k"
      using k(1) p(1) by simp_all
    then have "slots ! k \<in> set (take p slots)"
      using nth_mem [of k "take p slots"] by simp
    then show ?thesis using fst k(2) by (simp add: cand_def eligible_def)
  qed
  ultimately have "selected slots p"
    using p(1,3) by (simp add: selected_def cand_def eligible_def)
  then show ?thesis using p(2) by blast
qed

text \<open>
  C4, as the code has it. On a row that exists: if no slot of the row is flagged with a
  weight below \<open>+inf\<close>, \<open>smallest_flagged\<close> returns \<open>-1\<close> and leaves the heap
  unchanged; otherwise it returns the stored index of the first slot of least weight
  among the flagged ones, clears the flag of that slot and of no other, and a repeated
  call does not select that slot.
\<close>

theorem smallest_flagged_spec:
  assumes "wrap_index (length heap) row = Some r"
  shows "(if \<exists>k<length (heap ! r). eligible (heap ! r ! k)
          then \<exists>p. selected (heap ! r) p
                 \<and> smallest_flagged heap row
                     = Inr (index (heap ! r ! p), heap[r := clear_flag (heap ! r) p])
                 \<and> is_new (clear_flag (heap ! r) p ! p) = 0
                 \<and> flagged_scan (clear_flag (heap ! r) p) 0 PInf (- 1) \<noteq> int p
          else smallest_flagged heap row = Inr (- 1, heap))"
proof (cases "\<exists>k<length (heap ! r). eligible (heap ! r ! k)")
  case False
  then show ?thesis
    using assms flagged_scan_none [of "heap ! r"] by (auto simp: smallest_flagged_def)
next
  case True
  then obtain p where p: "selected (heap ! r) p" "flagged_scan (heap ! r) 0 PInf (- 1) = int p"
    using flagged_scan_selected by blast
  let ?row = "clear_flag (heap ! r) p"
  have pl: "p < length (heap ! r)" using p(1) by (simp add: selected_def)
  have cleared: "is_new (?row ! p) = 0" using pl by (simp add: clear_flag_def)
  have "flagged_scan ?row 0 PInf (- 1) \<noteq> int p"
  proof (cases "\<exists>k<length ?row. eligible (?row ! k)")
    case False
    then show ?thesis using flagged_scan_none [of ?row] by simp
  next
    case True
    then obtain q where q: "selected ?row q" "flagged_scan ?row 0 PInf (- 1) = int q"
      using flagged_scan_selected by blast
    then have "is_new (?row ! q) \<noteq> 0" by (simp add: selected_def eligible_def)
    then have "q \<noteq> p" using cleared by auto
    then show ?thesis using q(2) by simp
  qed
  moreover have "smallest_flagged heap row = Inr (index (heap ! r ! p), heap[r := ?row])"
    using assms p(2) by (simp add: smallest_flagged_def clear_flag_def)
  ultimately show ?thesis using True p(1) cleared by auto
qed

theorem smallest_flagged_spec_witness:
  "(\<exists>p. selected [\<lparr>index = 7, weight = F8 5, is_new = 1\<rparr>, \<lparr>index = 8, weight = F8 2, is_new = 1\<rparr>,
                   \<lparr>index = 9, weight = F8 2, is_new = 1\<rparr>, \<lparr>index = 3, weight = F8 1, is_new = 0\<rparr>] p
        \<and> smallest_flagged
             [[\<lparr>index = 7, weight = F8 5, is_new = 1\<rparr>, \<lparr>index = 8, weight = F8 2, is_new = 1\<rparr>,
               \<lparr>index = 9, weight = F8 2, is_new = 1\<rparr>, \<lparr>index = 3, weight = F8 1, is_new = 0\<rparr>]] 0
            = Inr (8, [[\<lparr>index = 7, weight = F8 5, is_new = 1\<rparr>, \<lparr>index = 8, weight = F8 2, is_new = 0\<rparr>,
                        \<lparr>index = 9, weight = F8 2, is_new = 1\<rparr>, \<lparr>index = 3, weight = F8 1, is_new = 0\<rparr>]]))
   \<and> selected [\<lparr>index = 7, weight = F8 5, is_new = 1\<rparr>, \<lparr>index = 8, weight = F8 2, is_new = 1\<rparr>,
               \<lparr>index = 9, weight = F8 2, is_new = 1\<rparr>, \<lparr>index = 3, weight = F8 1, is_new = 0\<rparr>] 1
   \<and> smallest_flagged [[\<lparr>index = 3, weight = F8 1, is_new = 0\<rparr>, \<lparr>index = 4, weight = PInf, is_new = 1\<rparr>]] (- 1)
       = Inr (- 1, [[\<lparr>index = 3, weight = F8 1, is_new = 0\<rparr>, \<lparr>index = 4, weight = PInf, is_new = 1\<rparr>]])"
proof -
  let ?row = "[\<lparr>index = 7, weight = F8 5, is_new = 1\<rparr>, \<lparr>index = 8, weight = F8 2, is_new = 1\<rparr>,
               \<lparr>index = 9, weight = F8 2, is_new = 1\<rparr>, \<lparr>index = 3, weight = F8 1, is_new = 0\<rparr>]"
  let ?row2 = "[\<lparr>index = 3, weight = F8 1, is_new = 0\<rparr>, \<lparr>index = 4, weight = PInf, is_new = 1\<rparr>]"
  have w: "wrap_index (length [?row]) 0 = Some 0" by (simp add: wrap_index_def)
  have e: "\<exists>k<length ([?row] ! 0). eligible ([?row] ! 0 ! k)"
    by (rule exI [of _ 1]) (simp add: eligible_def)
  have v: "smallest_flagged [?row] 0
            = Inr (8, [[\<lparr>index = 7, weight = F8 5, is_new = 1\<rparr>, \<lparr>index = 8, weight = F8 2, is_new = 0\<rparr>,
                        \<lparr>index = 9, weight = F8 2, is_new = 1\<rparr>, \<lparr>index = 3, weight = F8 1, is_new = 0\<rparr>]])"
    by code_simp
  from smallest_flagged_spec [OF w] e
  have "\<exists>p. selected ?row p
          \<and> smallest_flagged [?row] 0 = Inr (index (?row ! p), [?row][0 := clear_flag ?row p])"
    by auto
  then have A: "\<exists>p. selected ?row p
          \<and> smallest_flagged [?row] 0
            = Inr (8, [[\<lparr>index = 7, weight = F8 5, is_new = 1\<rparr>, \<lparr>index = 8, weight = F8 2, is_new = 0\<rparr>,
                        \<lparr>index = 9, weight = F8 2, is_new = 1\<rparr>, \<lparr>index = 3, weight = F8 1, is_new = 0\<rparr>]])"
    using v by auto
  have B: "selected ?row 1" by code_simp
  have w2: "wrap_index (length [?row2]) (- 1) = Some 0" by (simp add: wrap_index_def)
  have "\<forall>t\<in>set ?row2. \<not> eligible t" by (simp add: eligible_def)
  then have "\<not> (\<exists>k<length ?row2. eligible (?row2 ! k))"
    using nth_mem [of _ ?row2] by blast
  then have ne: "\<not> (\<exists>k<length ([?row2] ! 0). eligible ([?row2] ! 0 ! k))"
    by simp
  from smallest_flagged_spec [OF w2] ne
  have C: "smallest_flagged [?row2] (- 1) = Inr (- 1, [?row2])"
    by (simp only: if_False)
  from A B C show ?thesis by blast
qed

text \<open>
  C4 as stated fails: a flagged slot with weight \<open>+inf\<close>, which \<open>heap_push\<close> accepts on
  a new heap, is never selected, so \<open>-1\<close> is returned although a slot is flagged.
\<close>

theorem smallest_flagged_inf_counterexample:
  "heap_pushes (replicate 1 (replicate 1 \<lparr>index = - 1, weight = PInf, is_new = 0\<rparr>)) [(0, PInf, 7, 1)]
     = Inr [[\<lparr>index = 7, weight = PInf, is_new = 1\<rparr>]]
   \<and> is_new ([[\<lparr>index = 7, weight = PInf, is_new = 1\<rparr>]] ! 0 ! 0) \<noteq> 0
   \<and> smallest_flagged [[\<lparr>index = 7, weight = PInf, is_new = 1\<rparr>]] 0
       = Inr (- 1, [[\<lparr>index = 7, weight = PInf, is_new = 1\<rparr>]])"
proof -
  have "heap_pushes (replicate 1 (replicate 1 \<lparr>index = - 1, weight = PInf, is_new = 0\<rparr>)) [(0, PInf, 7, 1)]
     = Inr [[\<lparr>index = 7, weight = PInf, is_new = 1\<rparr>]]"
    by code_simp
  moreover have "smallest_flagged [[\<lparr>index = 7, weight = PInf, is_new = 1\<rparr>]] 0
       = Inr (- 1, [[\<lparr>index = 7, weight = PInf, is_new = 1\<rparr>]])"
    by code_simp
  ultimately show ?thesis by simp
qed

section \<open>The sampler\<close>

lemma sample_loop_accept_aux:
  assumes "sample_loop pool_size result rng_state = Some y"
  shows "0 < pool_size
           \<longrightarrow> (\<exists>j state'. y = Inr (j, state') \<and> j \<notin> set result \<and> 0 \<le> j \<and> j < pool_size)"
proof (rule sample_loop.raw_induct
    [where P = "\<lambda>p res st y. 0 < p
           \<longrightarrow> (\<exists>j state'. y = Inr (j, state') \<and> j \<notin> set res \<and> 0 \<le> j \<and> j < p)",
     OF _ assms])
  fix loop :: "int \<Rightarrow> int list \<Rightarrow> rng_state \<Rightarrow> (error + int \<times> rng_state) option"
    and pool_size result rng_state y
  assume ih: "\<And>p res st y'. loop p res st = Some y' \<Longrightarrow> 0 < p
           \<longrightarrow> (\<exists>j state'. y' = Inr (j, state') \<and> j \<notin> set res \<and> 0 \<le> j \<and> j < p)"
    and body: "(let (r, state') = tau_rand_int rng_state in
       if pool_size = 0 then Some (Inl ZeroDivisionError)
       else (let j = sint r mod pool_size in
             if j \<in> set result then loop pool_size result state'
             else Some (Inr (j, state')))) = Some y"
  show "0 < pool_size
           \<longrightarrow> (\<exists>j state'. y = Inr (j, state') \<and> j \<notin> set result \<and> 0 \<le> j \<and> j < pool_size)"
  proof
    assume pos: "0 < pool_size"
    obtain r state' where t: "tau_rand_int rng_state = (r, state')"
      by (cases "tau_rand_int rng_state")
    let ?j = "sint r mod pool_size"
    have range: "0 \<le> ?j" "?j < pool_size" using pos by simp_all
    show "\<exists>j state'. y = Inr (j, state') \<and> j \<notin> set result \<and> 0 \<le> j \<and> j < pool_size"
    proof (cases "?j \<in> set result")
      case True
      then have "loop pool_size result state' = Some y"
        using body t pos by simp
      then show ?thesis using ih pos by blast
    next
      case False
      then have "y = Inr (?j, state')"
        using body t pos by simp
      then show ?thesis using False range by blast
    qed
  qed
qed

lemma sample_loop_accept:
  assumes "sample_loop pool_size result rng_state = Some y" and "0 < pool_size"
  shows "\<exists>j state'. y = Inr (j, state') \<and> j \<notin> set result \<and> 0 \<le> j \<and> j < pool_size"
  using sample_loop_accept_aux [OF assms(1)] assms(2) by blast

lemma sample_loop_full:
  assumes "0 < pool_size" and "{0..<pool_size} \<subseteq> set result"
  shows "sample_loop pool_size result rng_state = None"
proof (cases "sample_loop pool_size result rng_state")
  case (Some y)
  from sample_loop_accept [OF Some assms(1)] obtain j where "j \<notin> set result" "0 \<le> j" "j < pool_size"
    by blast
  then show ?thesis using assms(2) by auto
qed simp

lemma in_pool_card:
  assumes "distinct result" and "\<forall>j\<in>set result. 0 \<le> j \<and> j < pool_size"
  shows "length result \<le> nat pool_size"
proof -
  have "set result \<subseteq> {0..<pool_size}" using assms(2) by auto
  then have "card (set result) \<le> card {0..<pool_size}" by (intro card_mono) simp_all
  then show ?thesis using assms(1) by (simp add: distinct_card)
qed

lemma sample_for_inv:
  assumes "sample_for k pool_size result rng_state = Some res" and "0 < pool_size"
    and "distinct result" and "\<forall>j\<in>set result. 0 \<le> j \<and> j < pool_size"
  shows "\<exists>result' state'. res = Inr (result', state') \<and> length result' = length result + k
           \<and> distinct result' \<and> (\<forall>j\<in>set result'. 0 \<le> j \<and> j < pool_size)"
  using assms
proof (induction k arbitrary: result rng_state)
  case 0
  then show ?case by auto
next
  case (Suc k)
  from Suc.prems(1) obtain y where y: "sample_loop pool_size result rng_state = Some y"
    by (cases "sample_loop pool_size result rng_state") simp_all
  from sample_loop_accept [OF y Suc.prems(2)] obtain j state' where
    j: "y = Inr (j, state')" "j \<notin> set result" "0 \<le> j" "j < pool_size" by blast
  have rec: "sample_for k pool_size (result @ [j]) state' = Some res"
    using Suc.prems(1) y j(1) by simp
  have "\<exists>result' st'. res = Inr (result', st') \<and> length result' = length (result @ [j]) + k
           \<and> distinct result' \<and> (\<forall>j\<in>set result'. 0 \<le> j \<and> j < pool_size)"
    by (rule Suc.IH [OF rec Suc.prems(2)]) (use Suc.prems(3,4) j in auto)
  then show ?case by simp
qed

lemma sample_for_diverges:
  assumes "0 < pool_size" and "distinct result" and "\<forall>j\<in>set result. 0 \<le> j \<and> j < pool_size"
    and "nat pool_size < length result + k"
  shows "sample_for k pool_size result rng_state = None"
proof (cases "sample_for k pool_size result rng_state")
  case (Some res)
  from sample_for_inv [OF Some assms(1,2,3)] obtain result' where
    "length result' = length result + k" "distinct result'"
    "\<forall>j\<in>set result'. 0 \<le> j \<and> j < pool_size" by blast
  then show ?thesis using in_pool_card [of result' pool_size] assms(4) by simp
qed simp

text \<open>
  C6. For \<open>0 \<le> n_samples \<le> pool_size\<close>, whenever \<open>rejection_sample\<close> terminates it
  returns \<open>n_samples\<close> pairwise distinct integers, each in \<open>[0, pool_size)\<close>, and no
  error; when \<open>n_samples = pool_size\<close> the result is a permutation of
  \<open>[0, pool_size)\<close>.
\<close>

theorem rejection_sample_distinct:
  assumes "0 \<le> n_samples" and "n_samples \<le> pool_size"
    and "rejection_sample n_samples pool_size rng_state = Some res"
  shows "\<exists>result state'. res = Inr (result, state') \<and> length result = nat n_samples
           \<and> distinct result \<and> (\<forall>j\<in>set result. 0 \<le> j \<and> j < pool_size)
           \<and> (n_samples = pool_size \<longrightarrow> mset result = mset [0..pool_size - 1])"
proof (cases "pool_size = 0")
  case True
  then have "n_samples = 0" using assms(1,2) by simp
  then show ?thesis using assms(3) True by (auto simp: rejection_sample_def)
next
  case False
  then have pos: "0 < pool_size" using assms(1,2) by simp
  have run: "sample_for (nat n_samples) pool_size [] rng_state = Some res"
    using assms(1,3) by (simp add: rejection_sample_def)
  from sample_for_inv [OF run pos] obtain result state' where
    r: "res = Inr (result, state')" "length result = nat n_samples" "distinct result"
       "\<forall>j\<in>set result. 0 \<le> j \<and> j < pool_size"
    by auto
  have "mset result = mset [0..pool_size - 1]" if full: "n_samples = pool_size"
  proof -
    have sub: "set result \<subseteq> {0..pool_size - 1}" using r(4) by auto
    have "card (set result) = card {0..pool_size - 1}"
      using r(2,3) full pos by (simp add: distinct_card)
    then have "set result = {0..pool_size - 1}"
      using sub by (intro card_subset_eq) simp_all
    then have "set result = set [0..pool_size - 1]" by simp
    then show ?thesis
      using r(3) by (simp only: set_eq_iff_mset_eq_distinct [OF r(3) distinct_upto])
  qed
  then show ?thesis using r by blast
qed

lemma three_draws:
  "tau_rand_int \<lparr>s0 = 123456789, s1 = 362436069, s2 = 521288629\<rparr>
     = (2450055554, \<lparr>s0 = 3167834079, s1 = 1504009761, s2 = 2004676732\<rparr>)"
  "tau_rand_int \<lparr>s0 = 3167834079, s1 = 1504009761, s2 = 2004676732\<rparr>
     = (1850835924, \<lparr>s0 = 352187045, s1 = 2589319711, s2 = 3774452590\<rparr>)"
  "tau_rand_int \<lparr>s0 = 352187045, s1 = 2589319711, s2 = 3774452590\<rparr>
     = (1554551309, \<lparr>s0 = 3744093525, s1 = 2774409721, s2 = 652011169\<rparr>)"
  by (simp_all add: tau_rand_int_def)

lemma sample_2_2:
  "rejection_sample 2 2 \<lparr>s0 = 123456789, s1 = 362436069, s2 = 521288629\<rparr>
     = Some (Inr ([0, 1], \<lparr>s0 = 3744093525, s1 = 2774409721, s2 = 652011169\<rparr>))"
proof -
  have l1: "sample_loop 2 [] \<lparr>s0 = 123456789, s1 = 362436069, s2 = 521288629\<rparr>
              = Some (Inr (0, \<lparr>s0 = 3167834079, s1 = 1504009761, s2 = 2004676732\<rparr>))"
    by (subst sample_loop.simps) (simp add: three_draws)
  have l3: "sample_loop 2 [0] \<lparr>s0 = 352187045, s1 = 2589319711, s2 = 3774452590\<rparr>
              = Some (Inr (1, \<lparr>s0 = 3744093525, s1 = 2774409721, s2 = 652011169\<rparr>))"
    by (subst sample_loop.simps) (simp add: three_draws)
  have l2: "sample_loop 2 [0] \<lparr>s0 = 3167834079, s1 = 1504009761, s2 = 2004676732\<rparr>
              = Some (Inr (1, \<lparr>s0 = 3744093525, s1 = 2774409721, s2 = 652011169\<rparr>))"
    by (subst sample_loop.simps) (simp add: three_draws l3)
  show ?thesis
    by (simp add: rejection_sample_def numeral_2_eq_2 l1 l2)
qed

theorem rejection_sample_distinct_witness:
  "rejection_sample 2 2 \<lparr>s0 = 123456789, s1 = 362436069, s2 = 521288629\<rparr>
     = Some (Inr ([0, 1], \<lparr>s0 = 3744093525, s1 = 2774409721, s2 = 652011169\<rparr>))
   \<and> distinct [0, 1 :: int]
   \<and> mset [0, 1 :: int] = mset [0..2 - 1]"
proof -
  let ?res = "Inr ([0, 1], \<lparr>s0 = 3744093525, s1 = 2774409721, s2 = 652011169\<rparr>)
                :: error + int list \<times> rng_state"
  have "\<exists>result state'. ?res = Inr (result, state') \<and> length result = nat 2
           \<and> distinct result \<and> (\<forall>j\<in>set result. 0 \<le> j \<and> j < 2)
           \<and> ((2::int) = 2 \<longrightarrow> mset result = mset [0..2 - 1])"
    by (rule rejection_sample_distinct [OF _ _ sample_2_2]) simp_all
  then have "distinct [0, 1 :: int] \<and> mset [0, 1 :: int] = mset [0..2 - 1]"
    by auto
  with sample_2_2 show ?thesis by blast
qed

text \<open>
  C7. For \<open>n_samples > pool_size > 0\<close>, \<open>rejection_sample\<close> never terminates, from any
  generator state: once every value of \<open>[0, pool_size)\<close> is in the result, the
  acceptance loop never ends.
\<close>

theorem rejection_sample_diverges:
  assumes "0 < pool_size" and "pool_size < n_samples"
  shows "rejection_sample n_samples pool_size rng_state = None
         \<and> (\<forall>result state. {0..<pool_size} \<subseteq> set result
               \<longrightarrow> sample_loop pool_size result state = None)"
proof -
  have "sample_for (nat n_samples) pool_size [] rng_state = None"
    by (rule sample_for_diverges) (use assms in simp_all)
  then have "rejection_sample n_samples pool_size rng_state = None"
    using assms by (simp add: rejection_sample_def)
  then show ?thesis using sample_loop_full [OF assms(1)] by blast
qed

theorem rejection_sample_diverges_witness:
  "rejection_sample 3 2 \<lparr>s0 = 123456789, s1 = 362436069, s2 = 521288629\<rparr> = None
   \<and> sample_loop 2 [1, 0] \<lparr>s0 = 123456789, s1 = 362436069, s2 = 521288629\<rparr> = None"
proof -
  have "{0..<2} \<subseteq> set [1, 0 :: int]" by auto
  then show ?thesis
    using rejection_sample_diverges [of 2 3 "\<lparr>s0 = 123456789, s1 = 362436069, s2 = 521288629\<rparr>"]
    by simp
qed

section \<open>The candidate graph builder\<close>

lemma for_each_append:
  "for_each body (xs @ ys) s =
     (case for_each body xs s of Inl e \<Rightarrow> Inl e | Inr s' \<Rightarrow> for_each body ys s')"
  by (induction xs arbitrary: s) (auto split: sum.splits)

lemma for_each_map_Pair:
  "for_each (\<lambda>(i, j). f i j) (map (Pair i) js) s = for_each (f i) js s"
  by (induction js arbitrary: s) (auto split: sum.splits)

lemma for_each_nested:
  "for_each (\<lambda>i. for_each (f i) js) is s = for_each (\<lambda>(i, j). f i j) (List.product is js) s"
  by (induction "is" arbitrary: s) (auto simp: for_each_append for_each_map_Pair split: sum.splits)

lemma candidate_step_skip:
  assumes "i < length gc" "j < length (gc ! i)" "index (gc ! i ! j) < 0"
  shows "candidate_step i j (c, gc, s) = Inr (c, gc, s)"
  using assms by (simp add: candidate_step_def)









lemma push_row_length:
  assumes "slots \<noteq> []"
  shows "length (push_row slots wt ix flag) = length slots"
proof -
  let ?new = "\<lparr>index = ix, weight = wt, is_new = flag\<rparr>"
  obtain slots' j where sd: "sift_down wt (slots[0 := ?new]) 0 = (slots', j)"
    by (cases "sift_down wt (slots[0 := ?new]) 0") auto
  have "0 < length (slots[0 := ?new])" using assms by simp
  from sift_down_mset [OF this sd] have "length slots' = length slots" by simp
  then show ?thesis by (simp add: push_row_def sd)
qed

lemma heap_push_total:
  assumes "0 \<le> row" and "row < int (length h)" and "\<forall>r<length h. h ! r \<noteq> []"
  shows "\<exists>k h'. heap_push h row wt ix flag = Inr (k, h') \<and> length h' = length h
           \<and> (\<forall>r<length h'. h' ! r \<noteq> [])"
proof -
  have w: "wrap_index (length h) row = Some (nat row)"
    using assms(1,2) by (simp add: wrap_index_def)
  have r: "nat row < length h" using assms(1,2) by simp
  then have ne: "h ! nat row \<noteq> []" using assms(3) by simp
  let ?h' = "h[nat row := push_row (h ! nat row) wt ix flag]"
  have "\<forall>r<length ?h'. ?h' ! r \<noteq> []"
  proof (intro allI impI)
    fix r assume "r < length ?h'"
    then have rl: "r < length h" by simp
    show "?h' ! r \<noteq> []"
    proof (cases "r = nat row")
      case True
      then show ?thesis using rl push_row_length [OF ne, of wt ix flag] ne
        by (metis length_0_conv nth_list_update_eq)
    next
      case False
      then show ?thesis using rl assms(3) by simp
    qed
  qed
  then show ?thesis
    using w ne assms(3) by (auto simp: heap_push_def)
qed

lemma positions_total:
  assumes "\<forall>(i, j)\<in>set ps. i < length gc \<and> j < length (gc ! i)
              \<and> index (gc ! i ! j) < int (length c) \<and> i < length c"
    and "\<forall>r<length c. c ! r \<noteq> []"
  shows "\<exists>c' g' s'. for_each (\<lambda>(i, j). candidate_step i j) ps (c, gc, s) = Inr (c', g', s')"
  using assms
proof (induction ps arbitrary: c gc s)
  case Nil
  then show ?case by simp
next
  case (Cons p ps)
  obtain i j where p: "p = (i, j)" by (cases p)
  have here: "i < length gc" "j < length (gc ! i)" "index (gc ! i ! j) < int (length c)"
      "i < length c"
    using Cons.prems(1) p by simp_all
  have "\<exists>c1 g1 s1. candidate_step i j (c, gc, s) = Inr (c1, g1, s1)
          \<and> length c1 = length c \<and> (\<forall>r<length c1. c1 ! r \<noteq> [])
          \<and> (g1 = gc \<or> g1 = gc[i := (gc ! i)[j := (gc ! i ! j)\<lparr>is_new := 0\<rparr>]])"
  proof (cases "index (gc ! i ! j) < 0")
    case True
    then show ?thesis using here Cons.prems(2) by (simp add: candidate_step_def)
  next
    case False
    let ?d = "fst (tau_rand s)" and ?nb = "index (gc ! i ! j)" and ?f = "is_new (gc ! i ! j)"
    from heap_push_total [of "int i" c "F8 ?d" ?nb ?f] here(4) Cons.prems(2)
    obtain k1 c0 where h1: "heap_push c (int i) (F8 ?d) ?nb ?f = Inr (k1, c0)"
      and l0: "length c0 = length c" and n0: "\<forall>r<length c0. c0 ! r \<noteq> []"
      by auto
    from heap_push_total [of ?nb c0 "F8 ?d" "int i" ?f] False here(3) l0 n0
    obtain k2 c1 where h2: "heap_push c0 ?nb (F8 ?d) (int i) ?f = Inr (k2, c1)"
      and l1: "length c1 = length c0" and n1: "\<forall>r<length c1. c1 ! r \<noteq> []"
      by auto
    have "candidate_step i j (c, gc, s)
            = Inr (c1, gc[i := (gc ! i)[j := (gc ! i ! j)\<lparr>is_new := 0\<rparr>]], snd (tau_rand s))"
      using here False h1 h2 by (simp add: candidate_step_def Let_def case_prod_beta)
    then show ?thesis using l0 l1 n1 by simp
  qed
  then obtain c1 g1 s1 where step: "candidate_step i j (c, gc, s) = Inr (c1, g1, s1)"
    and lc: "length c1 = length c" and nc: "\<forall>r<length c1. c1 ! r \<noteq> []"
    and g1: "g1 = gc \<or> g1 = gc[i := (gc ! i)[j := (gc ! i ! j)\<lparr>is_new := 0\<rparr>]]"
    by blast
  have keep: "i' < length g1 \<and> j' < length (g1 ! i') \<and> index (g1 ! i' ! j') = index (gc ! i' ! j')"
    if "i' < length gc" "j' < length (gc ! i')" for i' j'
    using g1
  proof
    assume "g1 = gc"
    then show ?thesis using that by simp
  next
    assume u: "g1 = gc[i := (gc ! i)[j := (gc ! i ! j)\<lparr>is_new := 0\<rparr>]]"
    show ?thesis
    proof (cases "i' = i")
      case True
      then show ?thesis using that u by (cases "j' = j") simp_all
    next
      case False
      then show ?thesis using that u by simp
    qed
  qed
  have "\<forall>(i, j)\<in>set ps. i < length g1 \<and> j < length (g1 ! i)
              \<and> index (g1 ! i ! j) < int (length c1) \<and> i < length c1"
    using Cons.prems(1) keep lc by fastforce
  from Cons.IH [OF this nc, of s1] show ?case
    using step p by simp
qed

text \<open>
  On such a graph, with a candidate heap of at least one slot per row,
  \<open>build_candidates\<close> returns.
\<close>

lemma build_candidates_total:
  assumes "0 \<le> n_vertices" and "0 < max_candidates"
    and "graph_ok current_graph (nat n_vertices) (nat n_neighbors)"
  shows "\<exists>c g' s'. build_candidates current_graph n_vertices n_neighbors max_candidates rng_state
                     = Inr (c, g', s')"
proof -
  let ?h0 = "replicate (nat n_vertices)
               (replicate (nat max_candidates) \<lparr>index = - 1, weight = PInf, is_new = 0\<rparr>)"
  have mk: "make_heap n_vertices max_candidates = Inr ?h0"
    using assms(1,2) by (simp add: make_heap_def)
  have rows: "\<forall>r<length ?h0. ?h0 ! r \<noteq> []" using assms(2) by simp
  have ok: "\<forall>(i, j)\<in>set (List.product [0..<nat n_vertices] [0..<nat n_neighbors]).
              i < length current_graph \<and> j < length (current_graph ! i)
              \<and> index (current_graph ! i ! j) < int (length ?h0) \<and> i < length ?h0"
  proof (clarify)
    fix i j assume "(i, j) \<in> set (List.product [0..<nat n_vertices] [0..<nat n_neighbors])"
    then have ij: "i < nat n_vertices" "j < nat n_neighbors" by simp_all
    then have "nat n_neighbors \<le> length (current_graph ! i)"
        "index (current_graph ! i ! j) < int (nat n_vertices)"
      using assms(3) unfolding graph_ok_def by simp_all
    moreover have "nat n_vertices \<le> length current_graph"
      using assms(3) unfolding graph_ok_def by simp
    ultimately show "i < length current_graph \<and> j < length (current_graph ! i)
              \<and> index (current_graph ! i ! j) < int (length ?h0) \<and> i < length ?h0"
      using ij by simp
  qed
  from positions_total [OF ok rows, of rng_state] show ?thesis
    by (simp add: build_candidates_def mk for_each_nested)
qed




section \<open>Heap-sort extraction\<close>

lemma swap_iw_pairs:
  assumes "a < length slots" and "b < length slots"
  shows "length (swap_iw slots a b) = length slots"
    and "mset (pairs (swap_iw slots a b)) = mset (pairs slots)"
proof -
  show "length (swap_iw slots a b) = length slots" by (simp add: swap_iw_def Let_def)
  have "pairs (swap_iw slots a b) = (pairs slots)[a := pairs slots ! b, b := pairs slots ! a]"
    using assms by (simp add: pairs_def swap_iw_def Let_def map_update)
  moreover have "mset ((pairs slots)[a := pairs slots ! b, b := pairs slots ! a]) = mset (pairs slots)"
    by (rule mset_swap) (use assms in \<open>simp_all add: pairs_def\<close>)
  ultimately show "mset (pairs (swap_iw slots a b)) = mset (pairs slots)"
    by simp
qed

declare sift_root.simps [simp del] deheap_row.simps [simp del]

lemma sift_root_pairs:
  assumes "heap_end \<le> int (length slots)"
  shows "length (sift_root slots heap_end rt) = length slots
         \<and> mset (pairs (sift_root slots heap_end rt)) = mset (pairs slots)"
  using assms
proof (induction slots heap_end rt rule: sift_root.induct)
  case (1 slots heap_end rt)
  show ?case
  proof (cases "int (rt * 2 + 1) < heap_end")
    case False
    then show ?thesis by (subst (1 2) sift_root.simps) simp
  next
    case True
    let ?l = "rt * 2 + 1"
    let ?s1 = "if f8_lt (weight (slots ! rt)) (weight (slots ! ?l)) then ?l else rt"
    let ?s2 = "if int (?l + 1) < heap_end \<and> f8_lt (weight (slots ! ?s1)) (weight (slots ! (?l + 1)))
               then ?l + 1 else ?s1"
    have unf: "sift_root slots heap_end rt
        = (if ?s2 = rt then slots else sift_root (swap_iw slots rt ?s2) heap_end ?s2)"
      by (subst sift_root.simps) (simp only: True if_True Let_def)
    show ?thesis
    proof (cases "?s2 = rt")
      case same: True
      then show ?thesis unfolding unf by simp
    next
      case diff: False
      have rt: "rt < length slots" using True "1.prems" by simp
      have s2: "?s2 < length slots" using True "1.prems" by (auto split: if_splits)
      have len: "heap_end \<le> int (length (swap_iw slots rt ?s2))"
        using "1.prems" swap_iw_pairs(1) [OF rt s2] by simp
      have "length (sift_root (swap_iw slots rt ?s2) heap_end ?s2) = length (swap_iw slots rt ?s2)
         \<and> mset (pairs (sift_root (swap_iw slots rt ?s2) heap_end ?s2))
             = mset (pairs (swap_iw slots rt ?s2))"
        by (rule "1.IH" [OF True refl refl refl refl refl diff len])
      then show ?thesis
        unfolding unf using diff swap_iw_pairs [OF rt s2] by simp
    qed
  qed
qed

lemma deheap_row_pairs:
  assumes "heap_end < int (length slots)"
  shows "length (deheap_row slots heap_end) = length slots
         \<and> mset (pairs (deheap_row slots heap_end)) = mset (pairs slots)"
  using assms
proof (induction slots heap_end rule: deheap_row.induct)
  case (1 slots heap_end)
  show ?case
  proof (cases "heap_end \<ge> 0")
    case False
    then show ?thesis by (subst (1 2) deheap_row.simps) simp
  next
    case True
    let ?a = "swap_iw slots 0 (nat heap_end)"
    let ?b = "sift_root ?a (heap_end - 1) 0"
    have i0: "0 < length slots" "nat heap_end < length slots"
      using True "1.prems" by (cases slots, simp_all)+
    note sw = swap_iw_pairs [OF i0]
    have sr: "length ?b = length ?a \<and> mset (pairs ?b) = mset (pairs ?a)"
      by (rule sift_root_pairs) (use "1.prems" sw(1) in simp)
    have "length (deheap_row ?b (heap_end - 1)) = length ?b
         \<and> mset (pairs (deheap_row ?b (heap_end - 1))) = mset (pairs ?b)"
      by (rule "1.IH" [OF True]) (use "1.prems" sw(1) sr in simp)
    moreover have "deheap_row slots heap_end = deheap_row ?b (heap_end - 1)"
      by (subst deheap_row.simps) (simp add: True)
    ultimately show ?thesis using sr sw by simp
  qed
qed

text \<open>
  The pairs \<open>deheap_sort\<close> returns for a row are a permutation of the row's pairs
  before the call, for every heap: the loops only swap.
\<close>

lemma deheap_sort_permutation:
  assumes "r < length heap"
  shows "mset (zip (fst (deheap_sort heap) ! r) (snd (deheap_sort heap) ! r))
           = mset (pairs (heap ! r))"
proof -
  let ?row = "deheap_row (heap ! r) (int (length (heap ! r)) - 1)"
  have "zip (map index ?row) (map weight ?row) = pairs ?row"
    by (simp add: pairs_def zip_map_map map_idI zip_same_conv_map)
  moreover have "mset (pairs ?row) = mset (pairs (heap ! r))"
    using deheap_row_pairs [of "int (length (heap ! r)) - 1" "heap ! r"] by simp
  ultimately show ?thesis using assms by (simp add: deheap_sort_def Let_def)
qed

text \<open>
  C1. The order fails. \<open>make_heap(1, 3)\<close> followed by the pushes of weights 5, 3 and 4
  gives the row of weights 5, 4, 3, a max-heap; \<open>deheap_sort\<close> returns for it the
  weights 4, 3, 5, which are not ascending. After \<open>heap_end -= 1\<close> the slots
  \<open>0 .. heap_end\<close> are still unsorted, but the sift-down loop runs only while
  \<open>root * 2 + 1 < heap_end\<close>, so the last of them is never compared.
\<close>

theorem deheap_sort_not_ascending:
  "heap_pushes (replicate 1 (replicate 3 \<lparr>index = - 1, weight = PInf, is_new = 0\<rparr>))
       [(0, F8 5, 10, 0), (0, F8 3, 11, 0), (0, F8 4, 12, 0)]
     = Inr [[\<lparr>index = 10, weight = F8 5, is_new = 0\<rparr>,
             \<lparr>index = 12, weight = F8 4, is_new = 0\<rparr>,
             \<lparr>index = 11, weight = F8 3, is_new = 0\<rparr>]]
   \<and> deheap_sort [[\<lparr>index = 10, weight = F8 5, is_new = 0\<rparr>,
                    \<lparr>index = 12, weight = F8 4, is_new = 0\<rparr>,
                    \<lparr>index = 11, weight = F8 3, is_new = 0\<rparr>]]
     = ([[12, 11, 10]], [[F8 4, F8 3, F8 5]])
   \<and> f8_lt (F8 3) (F8 4)"
proof -
  have "heap_pushes (replicate 1 (replicate 3 \<lparr>index = - 1, weight = PInf, is_new = 0\<rparr>))
       [(0, F8 5, 10, 0), (0, F8 3, 11, 0), (0, F8 4, 12, 0)]
     = Inr [[\<lparr>index = 10, weight = F8 5, is_new = 0\<rparr>,
             \<lparr>index = 12, weight = F8 4, is_new = 0\<rparr>,
             \<lparr>index = 11, weight = F8 3, is_new = 0\<rparr>]]"
    by code_simp
  moreover have "deheap_sort [[\<lparr>index = 10, weight = F8 5, is_new = 0\<rparr>,
                    \<lparr>index = 12, weight = F8 4, is_new = 0\<rparr>,
                    \<lparr>index = 11, weight = F8 3, is_new = 0\<rparr>]]
     = ([[12, 11, 10]], [[F8 4, F8 3, F8 5]])"
    by code_simp
  ultimately show ?thesis by simp
qed

end
